theory Spec2Isabelle
  imports Main "HOL-Library.Sublist"
begin

section \<open>Data model (Logger.h)\<close>

text \<open>
  \<^verbatim>\<open>enum class LogLevel { TRACE, DEBUG, INFO, WARNING, ERROR_, CRITICAL }\<close>.
  The enumerators carry the values 0 to 5, and \<^verbatim>\<open>level < currentLevel\<close> compares them.
\<close>

datatype LogLevel = TRACE | DEBUG | INFO | WARNING | ERROR | CRITICAL

fun level_value :: "LogLevel \<Rightarrow> nat" where
  "level_value TRACE = 0"
| "level_value DEBUG = 1"
| "level_value INFO = 2"
| "level_value WARNING = 3"
| "level_value ERROR = 4"
| "level_value CRITICAL = 5"

text \<open>
  \<^verbatim>\<open>struct LogMessage { LogLevel level; std::string message; std::string file; int line;
  std::string timestamp; }\<close>. A \<^verbatim>\<open>std::string\<close> is a sequence of bytes, here a
  \<^typ>\<open>string\<close>; the line number is an \<^verbatim>\<open>int\<close>, here an \<^typ>\<open>int\<close>.
\<close>

text \<open>
  \<^verbatim>\<open>enum class OutputTarget { Console = 1, File = 2, Both = Console | File }\<close>;
  \<^verbatim>\<open>writeLog\<close> tests the bits of \<^verbatim>\<open>static_cast<int>(outputTarget)\<close>.
\<close>

datatype OutputTarget = Console | File | Both

fun target_value :: "OutputTarget \<Rightarrow> int" where
  "target_value Console = 1"
| "target_value File = 2"
| "target_value Both = or 1 2"

record LogMessage =
  level :: LogLevel
  message :: string
  "file" :: string
  line :: int
  timestamp :: string

section \<open>Formatting (Logger.cpp, levelToString and formatLogMessage)\<close>

fun levelToString :: "LogLevel \<Rightarrow> string" where
  "levelToString TRACE = ''TRACE''"
| "levelToString DEBUG = ''DEBUG''"
| "levelToString INFO = ''INFO''"
| "levelToString WARNING = ''WARNING''"
| "levelToString ERROR = ''ERROR''"
| "levelToString CRITICAL = ''CRITICAL''"

text \<open>\<^verbatim>\<open>std::to_string(int)\<close>: the decimal digits, with a minus sign for a negative value.\<close>

definition digit_char :: "nat \<Rightarrow> char" where
  "digit_char d = ''0123456789'' ! (d mod 10)"

fun dec_digits :: "nat \<Rightarrow> string" where
  "dec_digits n = (if n < 10 then [digit_char n] else dec_digits (n div 10) @ [digit_char (n mod 10)])"

declare dec_digits.simps [simp del]

definition to_string :: "int \<Rightarrow> string" where
  "to_string i = (if i < 0 then CHR ''-'' # dec_digits (nat (- i)) else dec_digits (nat i))"

text \<open>
  \<^verbatim>\<open>str.find(from, start_pos)\<close>: the lowest index \<open>i \<ge> start_pos\<close> at which \<open>from\<close>
  occurs in \<open>str\<close>, or \<^verbatim>\<open>npos\<close> (here \<open>None\<close>) when there is none.
  \<open>find_first\<close> searches a suffix from its first character on.
\<close>

fun find_first :: "string \<Rightarrow> string \<Rightarrow> nat option" where
  "find_first pat [] = (if pat = [] then Some 0 else None)"
| "find_first pat (c # cs) =
     (if prefix pat (c # cs) then Some 0 else map_option Suc (find_first pat cs))"

definition str_find :: "string \<Rightarrow> string \<Rightarrow> nat \<Rightarrow> nat option" where
  "str_find str pat start_pos =
     (if length str < start_pos then None
      else map_option (\<lambda>i. start_pos + i) (find_first pat (drop start_pos str)))"

text \<open>
  \<^verbatim>\<open>str.replace(pos, n, to)\<close> with \<open>pos \<le> str.size()\<close>, which holds for every position
  that \<^verbatim>\<open>find\<close> returns: the \<open>n\<close> characters from \<open>pos\<close> on give way to \<open>to\<close>.
\<close>

definition str_replace :: "string \<Rightarrow> nat \<Rightarrow> nat \<Rightarrow> string \<Rightarrow> string" where
  "str_replace str pos n to = take pos str @ to @ drop (pos + n) str"

text \<open>
  The lambda \<^verbatim>\<open>replaceAll\<close>:
  \<^verbatim>\<open>
  size_t start_pos = 0;
  while ((start_pos = str.find(from, start_pos)) != std::string::npos) {
      str.replace(start_pos, from.length(), to);
      start_pos += to.length();
  }
  \<close>
  The loop is a partial function: \<open>None\<close> stands for a loop that never returns.
\<close>

partial_function (option) replaceAll_loop :: "string \<Rightarrow> string \<Rightarrow> string \<Rightarrow> nat \<Rightarrow> string option" where
  "replaceAll_loop str from to start_pos =
     (case str_find str from start_pos of
        None \<Rightarrow> Some str
      | Some p \<Rightarrow> replaceAll_loop (str_replace str p (length from) to) from to (p + length to))"

definition replaceAll :: "string \<Rightarrow> string \<Rightarrow> string \<Rightarrow> string option" where
  "replaceAll str from to = replaceAll_loop str from to 0"

text \<open>
  \<^verbatim>\<open>formatLogMessage\<close> starts from the logger's \<^verbatim>\<open>formatTemplate\<close> (here the argument
  \<open>tmpl\<close>) and runs the five passes one after the other on the same string.
\<close>

definition formatLogMessage :: "string \<Rightarrow> LogMessage \<Rightarrow> string option" where
  "formatLogMessage tmpl msg =
     Option.bind (replaceAll tmpl ''{t}'' (timestamp msg)) (\<lambda>s1.
     Option.bind (replaceAll s1 ''{L}'' (levelToString (level msg))) (\<lambda>s2.
     Option.bind (replaceAll s2 ''{f}'' (file msg)) (\<lambda>s3.
     Option.bind (replaceAll s3 ''{l}'' (to_string (line msg))) (\<lambda>s4.
     replaceAll s4 ''{m}'' (message msg)))))"

text \<open>
  A reference reading of one pass, for comparison with the loop: a single scan from left to
  right that copies the replacement at each occurrence of the pattern and resumes after the
  occurrence in the input, so that what it has copied is never looked at again.
\<close>

function scan_replace :: "string \<Rightarrow> string \<Rightarrow> string \<Rightarrow> string" where
  "scan_replace pat to [] = []"
| "scan_replace pat to (c # cs) =
     (if pat \<noteq> [] \<and> prefix pat (c # cs)
      then to @ scan_replace pat to (drop (length pat) (c # cs))
      else c # scan_replace pat to cs)"
  by pat_completeness auto
termination
  by (relation "measure (\<lambda>(pat, to, s). length s)") auto

section \<open>The file stream and the console\<close>

text \<open>
  The files the logger writes live outside the program. \<open>files\<close> maps a path to the bytes
  on disk, \<open>can_open\<close> says whether a path can be opened for writing (the directory
  exists, the name is valid, access is granted), and \<open>append_tells_end\<close> is the one point
  where C++ runtimes differ for the stream calls the logger makes: whether a stream opened
  with \<^verbatim>\<open>std::ios::app\<close> on a file that has content reports the end of the file as its
  position before its first write, or the beginning. The C standard leaves the initial
  position of an append stream to the implementation; the Windows C runtime, which the
  source is written for (\<^verbatim>\<open>windows.h\<close>, \<^verbatim>\<open>localtime_s\<close>), documents the beginning of the
  file until the first I/O operation, and moves to the end at each write.
  \<open>create_directories_throws\<close> says for which file paths the directory block of
  \<^verbatim>\<open>init\<close> (\<^verbatim>\<open>parent_path\<close>, \<^verbatim>\<open>exists\<close>, \<^verbatim>\<open>create_directories\<close>) ends in a
  \<^verbatim>\<open>std::filesystem::filesystem_error\<close>; a directory that it creates only matters
  through \<open>can_open\<close>.
\<close>

record filesystem =
  files :: "string \<Rightarrow> string option"
  can_open :: "string \<Rightarrow> bool"
  append_tells_end :: bool
  create_directories_throws :: "string \<Rightarrow> bool"

definition file_content :: "filesystem \<Rightarrow> string \<Rightarrow> string" where
  "file_content fsys path = (case files fsys path of None \<Rightarrow> [] | Some bytes \<Rightarrow> bytes)"

text \<open>
  \<^verbatim>\<open>std::ofstream logFileStream\<close>: the path of the file it is associated with
  (\<^verbatim>\<open>is_open()\<close>), its error state (\<^verbatim>\<open>fail()\<close>), the mode it was opened in, the
  characters written but not yet flushed, and the put position that \<^verbatim>\<open>tellp()\<close> reports.
\<close>

record ofstream =
  opened :: "string option"
  failed :: bool
  app_mode :: bool
  buffer :: string
  put_pos :: nat

definition closed_stream :: ofstream where
  "closed_stream = \<lparr>opened = None, failed = False, app_mode = False, buffer = [], put_pos = 0\<rparr>"

definition is_open :: "ofstream \<Rightarrow> bool" where
  "is_open strm = (opened strm \<noteq> None)"

text \<open>
  \<^verbatim>\<open>logFileStream.open(path, mode)\<close>. On a stream that is already open the call fails
  (\<^verbatim>\<open>basic_filebuf::open\<close> returns a null pointer when \<^verbatim>\<open>is_open()\<close> holds, and
  \<^verbatim>\<open>basic_ofstream::open\<close> then calls \<^verbatim>\<open>setstate(failbit)\<close>): the stream keeps its file
  and \<^verbatim>\<open>failbit\<close> is set. Otherwise the file is created or, without
  \<^verbatim>\<open>std::ios::app\<close>, truncated, and the error state is cleared; a path that cannot be
  opened sets \<^verbatim>\<open>failbit\<close>.
\<close>

definition ofstream_open :: "string \<Rightarrow> bool \<Rightarrow> ofstream \<times> filesystem \<Rightarrow> ofstream \<times> filesystem" where
  "ofstream_open path app sf =
     (case sf of (strm, fsys) \<Rightarrow>
        if is_open strm then (strm\<lparr>failed := True\<rparr>, fsys)
        else if \<not> can_open fsys path then (strm\<lparr>failed := True\<rparr>, fsys)
        else
          let bytes = (if app then file_content fsys path else [])
          in (\<lparr>opened = Some path, failed = False, app_mode = app, buffer = [],
               put_pos = (if append_tells_end fsys then length bytes else 0)\<rparr>,
              fsys\<lparr>files := (files fsys)(path := Some bytes)\<rparr>))"

text \<open>\<^verbatim>\<open>tellp()\<close>: \<open>-1\<close> on a stream in a failed state or without a file.\<close>

definition tellp :: "ofstream \<Rightarrow> int" where
  "tellp strm = (if failed strm \<or> \<not> is_open strm then - 1 else int (put_pos strm))"

text \<open>
  Output (\<^verbatim>\<open>write\<close> and \<^verbatim>\<open><<\<close>): nothing happens on a stream in a failed state; a
  stream without a file fails; otherwise the characters go to the buffer. In append mode
  every write lands at the end of the file.
\<close>

definition ofstream_write :: "string \<Rightarrow> ofstream \<times> filesystem \<Rightarrow> ofstream \<times> filesystem" where
  "ofstream_write bytes sf =
     (case sf of (strm, fsys) \<Rightarrow>
        if failed strm then (strm, fsys)
        else (case opened strm of
                None \<Rightarrow> (strm\<lparr>failed := True\<rparr>, fsys)
              | Some path \<Rightarrow>
                  (strm\<lparr>buffer := buffer strm @ bytes,
                        put_pos := (if app_mode strm
                                    then length (file_content fsys path) + length (buffer strm) + length bytes
                                    else put_pos strm + length bytes)\<rparr>, fsys)))"

text \<open>\<^verbatim>\<open>flush()\<close>: on a good stream the buffer goes to the file.\<close>

definition ofstream_flush :: "ofstream \<times> filesystem \<Rightarrow> ofstream \<times> filesystem" where
  "ofstream_flush sf =
     (case sf of (strm, fsys) \<Rightarrow>
        if failed strm then (strm, fsys)
        else (case opened strm of
                None \<Rightarrow> (strm, fsys)
              | Some path \<Rightarrow>
                  (strm\<lparr>buffer := []\<rparr>,
                   fsys\<lparr>files := (files fsys)(path := Some (file_content fsys path @ buffer strm))\<rparr>)))"

text \<open>\<^verbatim>\<open>os << std::endl\<close>: a newline character, then a flush.\<close>

definition ofstream_endl :: "ofstream \<times> filesystem \<Rightarrow> ofstream \<times> filesystem" where
  "ofstream_endl sf = ofstream_flush (ofstream_write [CHR 0x0A] sf)"

text \<open>
  \<^verbatim>\<open>close()\<close>: the file buffer writes what it still holds, whatever the error state of
  the stream, and lets go of the file; closing a stream without a file fails.
\<close>

definition ofstream_close :: "ofstream \<times> filesystem \<Rightarrow> ofstream \<times> filesystem" where
  "ofstream_close sf =
     (case sf of (strm, fsys) \<Rightarrow>
        (case opened strm of
           None \<Rightarrow> (strm\<lparr>failed := True\<rparr>, fsys)
         | Some path \<Rightarrow>
             (strm\<lparr>opened := None, buffer := []\<rparr>,
              fsys\<lparr>files := (files fsys)(path := Some (file_content fsys path @ buffer strm))\<rparr>)))"

text \<open>
  What \<^verbatim>\<open>writeLog\<close> sends to \<^verbatim>\<open>std::wcout\<close>, one value per line: the rendered line
  after \<^verbatim>\<open>[Console]\<close>, the two notices of a file write (the path, the number of bytes)
  and the notice that the file is not open.
\<close>

datatype console_line =
    ConsoleOutput string
  | FileWriteNotice string
  | FileBytesNotice nat
  | FileNotOpenNotice

section \<open>The logger (Logger.h, class Logger)\<close>

text \<open>
  The worker thread runs \<^verbatim>\<open>workerFunc\<close>; its control points are the places where it can
  be between two atomic actions.
\<close>

datatype worker_pc =
    W_LoopTest
  | W_Lock
  | W_WaitCheck
  | W_Blocked
  | W_Inner
  | W_Write LogMessage
  | W_Relock
  | W_FinalLock
  | W_Final
  | W_Stopped

text \<open>
  The members of the class, the control point of \<^verbatim>\<open>workerThread\<close>, whether
  \<^verbatim>\<open>queueMutex\<close> is held, the world outside (\<open>fs\<close>, \<open>console\<close>) and two history
  fields that no code reads: \<open>enqueued\<close>, every message ever pushed, and \<open>written\<close>, every
  message \<^verbatim>\<open>writeLog\<close> was called with, both in order.
\<close>

record Logger =
  currentLevel :: LogLevel
  outputTarget :: OutputTarget
  logFileStream :: ofstream
  startupTime :: string
  logFilePath :: string
  queueMutex :: bool
  messageQueue :: "LogMessage list"
  workerThread :: worker_pc
  exitFlag :: bool
  formatTemplate :: string
  fs :: filesystem
  console :: "console_line list"
  enqueued :: "LogMessage list"
  written :: "LogMessage list"

text \<open>
  The constructor: the members' initialisers of Logger.h, the startup time read from the
  clock (\<^verbatim>\<open>%Y-%m-%d_%H-%M-%S\<close>, here the argument), the worker thread started.
\<close>

definition Logger_ctor :: "string \<Rightarrow> filesystem \<Rightarrow> Logger" where
  "Logger_ctor now fsys =
     \<lparr>currentLevel = TRACE, outputTarget = Console, logFileStream = closed_stream,
      startupTime = now, logFilePath = [], queueMutex = False, messageQueue = [],
      workerThread = W_LoopTest, exitFlag = False,
      formatTemplate = ''{t} | {L} | {f}:{l} -> {m}'',
      fs = fsys, console = [], enqueued = [], written = []\<rparr>"

text \<open>\<^verbatim>\<open>filePath.rfind('.')\<close>: the index of the last occurrence, if there is one.\<close>

fun rfind :: "string \<Rightarrow> char \<Rightarrow> nat option" where
  "rfind [] ch = None"
| "rfind (c # cs) ch =
     (case rfind cs ch of
        Some i \<Rightarrow> Some (Suc i)
      | None \<Rightarrow> if c = ch then Some 0 else None)"

definition bom :: string where
  "bom = [CHR 0xEF, CHR 0xBB, CHR 0xBF]"

text \<open>
  \<^verbatim>\<open>Logger::init\<close>, the body under the lock. The level is assigned first; then the
  directory block may throw, and the exception leaves \<^verbatim>\<open>init\<close> (\<open>Inl\<close>, with the logger
  as it is at that point: the path and the stream untouched); otherwise the path is
  computed, the file opened and the byte-order mark written (\<open>Inr\<close>).
\<close>

datatype error = FilesystemError

definition init :: "LogLevel \<Rightarrow> string \<Rightarrow> bool \<Rightarrow> bool \<Rightarrow> Logger \<Rightarrow> (error \<times> Logger) + Logger" where
  "init lvl filePath app addTimestampSuffix s =
     (let s1 = s\<lparr>currentLevel := lvl\<rparr>
      in if create_directories_throws (fs s1) filePath then Inl (FilesystemError, s1)
         else
           let fullName = (case rfind filePath CHR ''.'' of
                             Some dot \<Rightarrow> take dot filePath @ ''_'' @ startupTime s1 @ drop dot filePath
                           | None \<Rightarrow> filePath @ ''_'' @ startupTime s1);
               s2 = s1\<lparr>logFilePath := (if addTimestampSuffix then fullName else filePath)\<rparr>;
               sf = ofstream_open (logFilePath s2) app (logFileStream s2, fs s2);
               sf' = (if is_open (fst sf) \<and> tellp (fst sf) = 0 then ofstream_write bom sf else sf)
           in Inr (s2\<lparr>logFileStream := fst sf', fs := snd sf'\<rparr>))"

definition setLogLevel :: "LogLevel \<Rightarrow> Logger \<Rightarrow> Logger" where
  "setLogLevel lvl s = s\<lparr>currentLevel := lvl\<rparr>"

definition setOutputTarget :: "OutputTarget \<Rightarrow> Logger \<Rightarrow> Logger" where
  "setOutputTarget target s = s\<lparr>outputTarget := target\<rparr>"

definition setFormatTemplate :: "string \<Rightarrow> Logger \<Rightarrow> Logger" where
  "setFormatTemplate tmpl s = s\<lparr>formatTemplate := tmpl\<rparr>"

text \<open>\<^verbatim>\<open>Logger::enqueueLog\<close>: the push under the lock.\<close>

definition enqueueLog :: "LogMessage \<Rightarrow> Logger \<Rightarrow> Logger" where
  "enqueueLog msg s = s\<lparr>messageQueue := messageQueue s @ [msg], enqueued := enqueued s @ [msg]\<rparr>"

text \<open>
  \<^verbatim>\<open>Logger::log\<close>; the last argument is what \<^verbatim>\<open>getTimestamp()\<close> reads from the clock
  (\<^verbatim>\<open>%Y-%m-%d %H:%M:%S\<close>).
\<close>

definition log :: "LogLevel \<Rightarrow> string \<Rightarrow> string \<Rightarrow> int \<Rightarrow> string \<Rightarrow> Logger \<Rightarrow> Logger" where
  "log lvl text fname ln now s =
     (if level_value lvl < level_value (currentLevel s) then s
      else enqueueLog \<lparr>level = lvl, message = text, file = fname, line = ln, timestamp = now\<rparr> s)"

text \<open>
  \<^verbatim>\<open>Logger::writeLog\<close>. \<open>None\<close> stands for a call that does not return, which can only
  come from \<^verbatim>\<open>formatLogMessage\<close>.
\<close>

definition writeLog :: "LogMessage \<Rightarrow> Logger \<Rightarrow> Logger option" where
  "writeLog msg s =
     (case formatLogMessage (formatTemplate s) msg of
        None \<Rightarrow> None
      | Some output \<Rightarrow>
          let target = target_value (outputTarget s);
              s1 = (if and target (target_value Console) \<noteq> 0
                    then s\<lparr>console := console s @ [ConsoleOutput output]\<rparr> else s);
              s2 = (if and target (target_value File) \<noteq> 0
                    then (if is_open (logFileStream s1)
                          then
                            let s3 = s1\<lparr>console := console s1 @
                                        [FileWriteNotice (logFilePath s1), FileBytesNotice (length output)]\<rparr>;
                                sf = ofstream_flush (ofstream_endl (ofstream_write output (logFileStream s3, fs s3)))
                            in s3\<lparr>logFileStream := fst sf, fs := snd sf\<rparr>
                          else s1\<lparr>console := console s1 @ [FileNotOpenNotice]\<rparr>)
                    else s1)
          in Some (s2\<lparr>written := written s2 @ [msg]\<rparr>))"

text \<open>
  \<^verbatim>\<open>Logger::workerFunc\<close>, one atomic action at a time. \<open>None\<close>: the thread cannot move
  (it waits for the mutex, or it has returned).
  \<^item> \<open>W_LoopTest\<close>: \<^verbatim>\<open>while (!exitFlag)\<close>;
  \<^item> \<open>W_Lock\<close>: \<^verbatim>\<open>std::unique_lock<std::mutex> lock(queueMutex)\<close>;
  \<^item> \<open>W_WaitCheck\<close>, \<open>W_Blocked\<close>: \<^verbatim>\<open>cv.wait(lock, pred)\<close>, which tests the predicate with
    the mutex held and otherwise releases the mutex and sleeps until it is woken (by a
    notification or spuriously), takes the mutex again and tests again;
  \<^item> \<open>W_Inner\<close>: \<^verbatim>\<open>while (!messageQueue.empty())\<close> with \<^verbatim>\<open>front\<close>, \<^verbatim>\<open>pop\<close> and
    \<^verbatim>\<open>lock.unlock()\<close>; on an empty queue the end of the outer loop's body releases the lock;
  \<^item> \<open>W_Write\<close>: \<^verbatim>\<open>writeLog(msg)\<close>; \<open>W_Relock\<close>: \<^verbatim>\<open>lock.lock()\<close>;
  \<^item> \<open>W_FinalLock\<close>, \<open>W_Final\<close>: the \<^verbatim>\<open>lock_guard\<close> and the loop after the outer loop;
  \<^item> \<open>W_Stopped\<close>: the function has returned.
\<close>

definition workerFunc :: "Logger \<Rightarrow> Logger option" where
  "workerFunc s =
     (case workerThread s of
        W_LoopTest \<Rightarrow> Some (s\<lparr>workerThread := (if exitFlag s then W_FinalLock else W_Lock)\<rparr>)
      | W_Lock \<Rightarrow>
          if queueMutex s then None else Some (s\<lparr>queueMutex := True, workerThread := W_WaitCheck\<rparr>)
      | W_WaitCheck \<Rightarrow>
          if messageQueue s \<noteq> [] \<or> exitFlag s then Some (s\<lparr>workerThread := W_Inner\<rparr>)
          else Some (s\<lparr>queueMutex := False, workerThread := W_Blocked\<rparr>)
      | W_Blocked \<Rightarrow>
          if queueMutex s then None else Some (s\<lparr>queueMutex := True, workerThread := W_WaitCheck\<rparr>)
      | W_Inner \<Rightarrow>
          (case messageQueue s of
             [] \<Rightarrow> Some (s\<lparr>queueMutex := False, workerThread := W_LoopTest\<rparr>)
           | msg # rest \<Rightarrow>
               Some (s\<lparr>messageQueue := rest, queueMutex := False, workerThread := W_Write msg\<rparr>))
      | W_Write msg \<Rightarrow> map_option (\<lambda>s'. s'\<lparr>workerThread := W_Relock\<rparr>) (writeLog msg s)
      | W_Relock \<Rightarrow>
          if queueMutex s then None else Some (s\<lparr>queueMutex := True, workerThread := W_Inner\<rparr>)
      | W_FinalLock \<Rightarrow>
          if queueMutex s then None else Some (s\<lparr>queueMutex := True, workerThread := W_Final\<rparr>)
      | W_Final \<Rightarrow>
          (case messageQueue s of
             [] \<Rightarrow> Some (s\<lparr>queueMutex := False, workerThread := W_Stopped\<rparr>)
           | msg # rest \<Rightarrow>
               map_option (\<lambda>s'. s'\<lparr>messageQueue := tl (messageQueue s')\<rparr>) (writeLog msg s))
      | W_Stopped \<Rightarrow> None)"

text \<open>
  What the threads of the program can do to the logger: a step of the worker, a call of a
  public member function, and the two halves of the destructor, before and after
  \<^verbatim>\<open>workerThread.join()\<close>.
\<close>

datatype event =
    Worker
  | Log LogLevel string string int string
  | Init LogLevel string bool bool
  | SetLogLevel LogLevel
  | SetOutputTarget OutputTarget
  | SetFormatTemplate string
  | DtorSignal
  | DtorClose

text \<open>
  One event. A member function that takes \<^verbatim>\<open>queueMutex\<close> runs when the mutex is free and
  is atomic for the others, since it holds the mutex to its end; \<^verbatim>\<open>log\<close> takes the mutex
  only when it enqueues. An exception out of \<^verbatim>\<open>init\<close> releases the mutex on its way; the
  logger goes on as the exception left it (a caller that does not catch it ends the program,
  and with it every run). The destructor sets the flag without the mutex, and closes the
  file once the worker has returned.
\<close>

fun step :: "event \<Rightarrow> Logger \<Rightarrow> Logger option" where
  "step Worker s = workerFunc s"
| "step (Log lvl text fname ln now) s =
     (if \<not> level_value lvl < level_value (currentLevel s) \<and> queueMutex s then None
      else Some (log lvl text fname ln now s))"
| "step (Init lvl filePath app addTimestampSuffix) s =
     (if queueMutex s then None
      else (case init lvl filePath app addTimestampSuffix s of
              Inl (err, s') \<Rightarrow> Some s'
            | Inr s' \<Rightarrow> Some s'))"
| "step (SetLogLevel lvl) s = (if queueMutex s then None else Some (setLogLevel lvl s))"
| "step (SetOutputTarget target) s = (if queueMutex s then None else Some (setOutputTarget target s))"
| "step (SetFormatTemplate tmpl) s = (if queueMutex s then None else Some (setFormatTemplate tmpl s))"
| "step DtorSignal s = Some (s\<lparr>exitFlag := True\<rparr>)"
| "step DtorClose s =
     (if exitFlag s \<and> workerThread s = W_Stopped
      then Some (if is_open (logFileStream s)
                 then (let sf = ofstream_close (logFileStream s, fs s)
                       in s\<lparr>logFileStream := fst sf, fs := snd sf\<rparr>)
                 else s)
      else None)"

fun run :: "event list \<Rightarrow> Logger \<Rightarrow> Logger option" where
  "run [] s = Some s"
| "run (e # es) s = (case step e s of None \<Rightarrow> None | Some s' \<Rightarrow> run es s')"

text \<open>The messages taken from the queue or still in it, in the order they will be written.\<close>

definition pending :: "Logger \<Rightarrow> LogMessage list" where
  "pending s = (case workerThread s of W_Write msg \<Rightarrow> [msg] | _ \<Rightarrow> []) @ messageQueue s"

text \<open>What was enqueued is what was written, followed by what is pending.\<close>

definition fifo_inv :: "Logger \<Rightarrow> bool" where
  "fifo_inv s = (enqueued s = written s @ pending s)"

text \<open>
  What a call of \<^verbatim>\<open>writeLog\<close> for \<open>msg\<close> that leads from \<open>t\<close> to \<open>t'\<close> has put on the
  destinations that are usable in \<open>t\<close>: the rendered line on the console where the Console
  bit is set, and the rendered line with a newline in the file, behind what the file held and
  what waited in the buffer, where the File bit is set, a file is open and the stream is not
  in a failed state.
\<close>

definition delivered :: "LogMessage \<Rightarrow> Logger \<Rightarrow> Logger \<Rightarrow> bool" where
  "delivered msg t t' =
     (\<exists>out. formatLogMessage (formatTemplate t) msg = Some out \<and>
        (and (target_value (outputTarget t)) (target_value Console) \<noteq> 0 \<longrightarrow>
           prefix (console t @ [ConsoleOutput out]) (console t')) \<and>
        (\<forall>path. and (target_value (outputTarget t)) (target_value File) \<noteq> 0 \<and>
               opened (logFileStream t) = Some path \<and> \<not> failed (logFileStream t) \<longrightarrow>
           file_content (fs t') path =
             file_content (fs t) path @ buffer (logFileStream t) @ out @ [CHR 0x0A]))"

text \<open>The control points at which the worker holds \<^verbatim>\<open>queueMutex\<close>.\<close>

fun holds_mutex :: "worker_pc \<Rightarrow> bool" where
  "holds_mutex W_WaitCheck = True"
| "holds_mutex W_Inner = True"
| "holds_mutex W_Final = True"
| "holds_mutex _ = False"

section \<open>One pass of replaceAll is a single scan\<close>

text \<open>
  Where the pattern does not occur, a scan changes nothing; where \<^verbatim>\<open>find\<close> returns a
  position, the scan copies the text before it, then the replacement, and goes on behind the
  occurrence. With these two facts the loop, started anywhere, is the scan of the rest: the
  distance between the search position and the end of the string shrinks with every round.
\<close>

lemma find_first_None_scan:
  "pat \<noteq> [] \<Longrightarrow> find_first pat s = None \<Longrightarrow> scan_replace pat to s = s"
  by (induction s) (auto split: if_splits)

lemma find_first_Some_bound:
  "find_first pat s = Some i \<Longrightarrow> i + length pat \<le> length s"
proof (induction s arbitrary: i)
  case Nil
  then show ?case by (simp split: if_splits)
next
  case (Cons c cs)
  show ?case
  proof (cases "prefix pat (c # cs)")
    case True
    with Cons.prems have "i = 0" by simp
    with prefix_length_le [OF True] show ?thesis by simp
  next
    case False
    with Cons.prems obtain j where "find_first pat cs = Some j" "i = Suc j" by auto
    with Cons.IH show ?thesis by fastforce
  qed
qed

lemma find_first_Some_scan:
  "pat \<noteq> [] \<Longrightarrow> find_first pat s = Some i \<Longrightarrow>
     scan_replace pat to s = take i s @ to @ scan_replace pat to (drop (i + length pat) s)"
proof (induction s arbitrary: i)
  case Nil
  then show ?case by simp
next
  case (Cons c cs)
  show ?case
  proof (cases "prefix pat (c # cs)")
    case True
    with Cons.prems have "i = 0" by simp
    with True Cons.prems show ?thesis by simp
  next
    case False
    with Cons.prems obtain j where j: "find_first pat cs = Some j" "i = Suc j" by auto
    with Cons.IH Cons.prems False show ?thesis by simp
  qed
qed

lemma replaceAll_loop_scan:
  "pat \<noteq> [] \<Longrightarrow> pos \<le> length str \<Longrightarrow>
     replaceAll_loop str pat to pos = Some (take pos str @ scan_replace pat to (drop pos str))"
proof (induction "length str - pos" arbitrary: str pos rule: less_induct)
  case less
  show ?case
  proof (cases "find_first pat (drop pos str)")
    case None
    with less.prems have "str_find str pat pos = None" by (simp add: str_find_def)
    moreover from None less.prems have "scan_replace pat to (drop pos str) = drop pos str"
      by (simp add: find_first_None_scan)
    ultimately show ?thesis by (subst replaceAll_loop.simps) simp
  next
    case (Some i)
    let ?p = "pos + i"
    let ?str' = "str_replace str ?p (length pat) to"
    from Some have bound: "i + length pat \<le> length str - pos"
      using find_first_Some_bound by fastforce
    from Some less.prems have sf: "str_find str pat pos = Some ?p" by (simp add: str_find_def)
    from bound less.prems have len: "length ?str' = length str - length pat + length to"
      by (simp add: str_replace_def)
    from less.prems(1) have "0 < length pat" by simp
    with bound less.prems(2) len have meas: "length ?str' - (?p + length to) < length str - pos"
      by arith
    from bound less.prems len have le: "?p + length to \<le> length ?str'" by simp
    from bound less.prems have tk: "take (?p + length to) ?str' = take ?p str @ to"
      by (simp add: str_replace_def)
    from bound less.prems have dr: "drop (?p + length to) ?str' = drop (?p + length pat) str"
      by (simp add: str_replace_def)
    have "replaceAll_loop str pat to pos = replaceAll_loop ?str' pat to (?p + length to)"
      by (subst replaceAll_loop.simps) (simp add: sf)
    also have "\<dots> = Some (take (?p + length to) ?str' @ scan_replace pat to (drop (?p + length to) ?str'))"
      using less.hyps [OF meas less.prems(1) le] .
    also have "\<dots> = Some ((take pos str @ take i (drop pos str)) @ to @
        scan_replace pat to (drop (i + length pat) (drop pos str)))"
    proof -
      have "take ?p str = take pos str @ take i (drop pos str)" by (simp add: take_add)
      moreover have "drop (?p + length pat) str = drop (i + length pat) (drop pos str)"
        by (simp add: ac_simps)
      ultimately show ?thesis unfolding tk dr by simp
    qed
    also have "\<dots> = Some (take pos str @ scan_replace pat to (drop pos str))"
      using find_first_Some_scan [OF less.prems(1) Some, of to] by simp
    finally show ?thesis .
  qed
qed

lemma replaceAll_scan: "pat \<noteq> [] \<Longrightarrow> replaceAll str pat to = Some (scan_replace pat to str)"
  by (simp add: replaceAll_def replaceAll_loop_scan)

lemma formatLogMessage_scan:
  "formatLogMessage tmpl msg =
     Some (scan_replace ''{m}'' (message msg)
            (scan_replace ''{l}'' (to_string (line msg))
              (scan_replace ''{f}'' (file msg)
                (scan_replace ''{L}'' (levelToString (level msg))
                  (scan_replace ''{t}'' (timestamp msg) tmpl)))))"
  by (simp add: formatLogMessage_def replaceAll_scan)

lemma scan_replace_skip:
  "CHR ''{'' \<notin> set T \<Longrightarrow> scan_replace (CHR ''{'' # ps) to (T @ rest) = T @ scan_replace (CHR ''{'' # ps) to rest"
  by (induction T) auto

lemma to_string_10: "to_string 10 = ''10''"
  by code_simp

lemma str_find_0_None_scan:
  "pat \<noteq> [] \<Longrightarrow> str_find str pat 0 = None \<Longrightarrow> scan_replace pat to str = str"
  by (simp add: str_find_def find_first_None_scan)

section \<open>Rendering\<close>

text \<open>
  C5, as amended. Rendering is five passes in the order \<^verbatim>\<open>{t}\<close>, \<^verbatim>\<open>{L}\<close>, \<^verbatim>\<open>{f}\<close>,
  \<^verbatim>\<open>{l}\<close>, \<^verbatim>\<open>{m}\<close>, each a literal scan from left to right that does not look again at
  what it has inserted, each working on the output of the pass before it. The message text,
  inserted by the last pass, is therefore never substituted again: the template
  \<^verbatim>\<open>{m}\<close> renders as the message text itself, whatever the text contains. A template in
  which \<^verbatim>\<open>find\<close> meets none of the five placeholders comes out unchanged.
\<close>

theorem formatLogMessage_passes:
  "formatLogMessage tmpl msg =
     Some (scan_replace ''{m}'' (message msg)
            (scan_replace ''{l}'' (to_string (line msg))
              (scan_replace ''{f}'' (file msg)
                (scan_replace ''{L}'' (levelToString (level msg))
                  (scan_replace ''{t}'' (timestamp msg) tmpl)))))
   \<and> formatLogMessage ''{m}'' msg = Some (message msg)
   \<and> ((\<forall>p \<in> set [''{t}'', ''{L}'', ''{f}'', ''{l}'', ''{m}'']. str_find tmpl p 0 = None)
        \<longrightarrow> formatLogMessage tmpl msg = Some tmpl)"
proof (intro conjI impI)
  show "formatLogMessage ''{m}'' msg = Some (message msg)"
    by (simp add: formatLogMessage_scan)
next
  assume "\<forall>p \<in> set [''{t}'', ''{L}'', ''{f}'', ''{l}'', ''{m}'']. str_find tmpl p 0 = None"
  then show "formatLogMessage tmpl msg = Some tmpl"
    by (simp add: formatLogMessage_scan str_find_0_None_scan)
qed (rule formatLogMessage_scan)

theorem formatLogMessage_passes_witness:
  "formatLogMessage ''[{x}] plain''
     \<lparr>level = INFO, message = ''hello'', file = ''a.cpp'', line = 10, timestamp = ''now''\<rparr>
   = Some ''[{x}] plain''"
proof -
  have "\<forall>p \<in> set [''{t}'', ''{L}'', ''{f}'', ''{l}'', ''{m}'']. str_find ''[{x}] plain'' p 0 = None"
    by (simp add: str_find_def)
  with formatLogMessage_passes [of "''[{x}] plain''"] show ?thesis by blast
qed

text \<open>
  C5 as stated fails: a file name that contains \<^verbatim>\<open>{m}\<close> is inserted by the third pass
  and replaced by the message text in the fifth.
\<close>

theorem formatLogMessage_resubstitutes:
  "formatLogMessage ''{f}''
     \<lparr>level = INFO, message = ''hello'', file = ''{m}'', line = 1, timestamp = ''T''\<rparr>
   = Some ''hello''"
  by (simp add: formatLogMessage_scan)

text \<open>
  C6. The default template, rendered for a message of level INFO from a.cpp, line 10, with
  the text hello and the timestamp \<open>T\<close>, is \<open>T\<close> followed by
  \<^verbatim>\<open> | INFO | a.cpp:10 -> hello\<close>. A timestamp is what \<^verbatim>\<open>getTimestamp\<close> returns, digits
  separated by dashes, colons and a space; all the theorem asks of it is that it holds no
  opening brace.
\<close>

theorem formatLogMessage_default_template:
  "CHR ''{'' \<notin> set T \<Longrightarrow>
   formatLogMessage (formatTemplate (Logger_ctor now fsys))
     \<lparr>level = INFO, message = ''hello'', file = ''a.cpp'', line = 10, timestamp = T\<rparr>
   = Some (T @ '' | INFO | a.cpp:10 -> hello'')"
  by (simp add: Logger_ctor_def formatLogMessage_scan scan_replace_skip to_string_10)

theorem formatLogMessage_default_template_witness:
  "formatLogMessage ''{t} | {L} | {f}:{l} -> {m}''
     \<lparr>level = INFO, message = ''hello'', file = ''a.cpp'', line = 10,
      timestamp = ''2024-01-01 12:00:00''\<rparr>
   = Some ''2024-01-01 12:00:00 | INFO | a.cpp:10 -> hello''"
  using formatLogMessage_default_template [of "''2024-01-01 12:00:00''" "[]" "\<lparr>files = Map.empty, can_open = (\<lambda>p. True), append_tells_end = True,
           create_directories_throws = (\<lambda>p. False)\<rparr>"]
  by (simp add: Logger_ctor_def)

text \<open>
  C10. \<^verbatim>\<open>formatLogMessage\<close> returns for every template and every message, also when a
  value that is inserted contains the placeholder it replaces: each pass resumes its search
  behind the text it has just inserted.
\<close>

theorem formatLogMessage_terminates: "\<exists>out. formatLogMessage tmpl msg = Some out"
  by (simp add: formatLogMessage_scan)

section \<open>The queue and the worker\<close>

text \<open>
  \<^verbatim>\<open>writeLog\<close> always returns, and it touches neither the queue nor the control state.
\<close>

lemma writeLog_returns: "\<exists>s'. writeLog msg s = Some s'"
proof -
  obtain out where "formatLogMessage (formatTemplate s) msg = Some out"
    by (simp add: formatLogMessage_scan)
  then show ?thesis by (simp add: writeLog_def Let_def)
qed

lemma writeLog_control:
  assumes "writeLog msg s = Some s'"
  shows "messageQueue s' = messageQueue s" and "enqueued s' = enqueued s"
    and "written s' = written s @ [msg]" and "workerThread s' = workerThread s"
    and "exitFlag s' = exitFlag s" and "queueMutex s' = queueMutex s"
  using assms by (auto simp: writeLog_def Let_def split: option.splits if_splits)

lemma fifo_inv_ctor: "fifo_inv (Logger_ctor now fsys)"
  by (simp add: fifo_inv_def pending_def Logger_ctor_def)

lemma fifo_inv_workerFunc:
  assumes "workerFunc s = Some s'" and "fifo_inv s"
  shows "fifo_inv s'"
proof (cases "workerThread s")
  case (W_Write msg)
  with assms(1) obtain s1 where w: "writeLog msg s = Some s1" and s': "s' = s1\<lparr>workerThread := W_Relock\<rparr>"
    by (auto simp: workerFunc_def)
  from assms(2) W_Write writeLog_control [OF w] s' show ?thesis
    by (simp add: fifo_inv_def pending_def)
next
  case W_Final
  show ?thesis
  proof (cases "messageQueue s")
    case Nil
    with assms W_Final show ?thesis by (auto simp: workerFunc_def fifo_inv_def pending_def)
  next
    case (Cons msg rest)
    with assms(1) W_Final obtain s1 where w: "writeLog msg s = Some s1"
      and s': "s' = s1\<lparr>messageQueue := tl (messageQueue s1)\<rparr>"
      by (auto simp: workerFunc_def)
    from assms(2) W_Final Cons writeLog_control [OF w] s' show ?thesis
      by (simp add: fifo_inv_def pending_def)
  qed
qed (use assms in \<open>auto simp: workerFunc_def fifo_inv_def pending_def split: if_splits list.splits\<close>)

lemma fifo_inv_step:
  assumes "step e s = Some s'" and "fifo_inv s"
  shows "fifo_inv s'"
proof (cases e)
  case Worker
  with assms show ?thesis by (simp add: fifo_inv_workerFunc)
qed (use assms in \<open>auto simp: fifo_inv_def pending_def log_def enqueueLog_def init_def Let_def
       setLogLevel_def setOutputTarget_def setFormatTemplate_def split: if_splits sum.splits prod.splits\<close>)

lemma fifo_inv_run: "run es s = Some s' \<Longrightarrow> fifo_inv s \<Longrightarrow> fifo_inv s'"
  by (induction es arbitrary: s) (auto split: option.splits dest: fifo_inv_step)


lemma exit_inv_step:
  assumes "step e s = Some s'"
    and "workerThread s \<in> {W_FinalLock, W_Final, W_Stopped} \<longrightarrow> exitFlag s"
  shows "workerThread s' \<in> {W_FinalLock, W_Final, W_Stopped} \<longrightarrow> exitFlag s'"
proof (cases e)
  case Worker
  show ?thesis
  proof (cases "workerThread s")
    case (W_Write msg)
    with assms(1) Worker show ?thesis by (auto simp: workerFunc_def)
  next
    case W_Final
    with assms Worker show ?thesis
      by (auto simp: workerFunc_def split: list.splits dest: writeLog_control)
  qed (use assms Worker in \<open>auto simp: workerFunc_def split: if_splits list.splits\<close>)
qed (use assms in \<open>auto simp: log_def enqueueLog_def init_def Let_def
       setLogLevel_def setOutputTarget_def setFormatTemplate_def split: if_splits sum.splits prod.splits\<close>)

lemma exit_inv_run:
  "run es s = Some s' \<Longrightarrow>
   workerThread s \<in> {W_FinalLock, W_Final, W_Stopped} \<longrightarrow> exitFlag s \<Longrightarrow>
   workerThread s' \<in> {W_FinalLock, W_Final, W_Stopped} \<longrightarrow> exitFlag s'"
proof (induction es arbitrary: s)
  case Nil
  then show ?case by simp
next
  case (Cons e es)
  from Cons.prems(1) obtain s1 where 1: "step e s = Some s1" and 2: "run es s1 = Some s'"
    by (auto split: option.splits)
  from Cons.IH [OF 2 exit_inv_step [OF 1 Cons.prems(2)]] show ?case .
qed

lemma running_ctor: "run es (Logger_ctor now fsys) = Some s \<Longrightarrow> \<not> exitFlag s \<Longrightarrow> workerThread s \<noteq> W_Stopped"
  using exit_inv_run [of es "Logger_ctor now fsys" s] by (auto simp: Logger_ctor_def)

lemma enqueued_step: "step e s = Some s' \<Longrightarrow> prefix (enqueued s) (enqueued s')"
proof (cases e)
  case Worker
  assume "step e s = Some s'"
  with Worker show ?thesis
    by (cases "workerThread s")
       (auto simp: workerFunc_def split: if_splits list.splits dest: writeLog_control)
qed (auto simp: log_def enqueueLog_def init_def Let_def
       setLogLevel_def setOutputTarget_def setFormatTemplate_def split: if_splits sum.splits prod.splits)

lemma enqueued_run: "run es s = Some s' \<Longrightarrow> prefix (enqueued s) (enqueued s')"
proof (induction es arbitrary: s)
  case Nil
  then show ?case by simp
next
  case (Cons e es)
  from Cons.prems obtain s1 where 1: "step e s = Some s1" and 2: "run es s1 = Some s'"
    by (auto split: option.splits)
  from enqueued_step [OF 1] Cons.IH [OF 2] show ?case by (rule prefix_order.trans)
qed

text \<open>Once the worker has returned, nothing calls writeLog and nothing reaches the console.\<close>

lemma stopped_step:
  assumes "step e s = Some s'" and "workerThread s = W_Stopped"
  shows "workerThread s' = W_Stopped \<and> written s' = written s \<and> console s' = console s"
  using assms
  by (cases e) (auto simp: workerFunc_def log_def enqueueLog_def init_def Let_def
       setLogLevel_def setOutputTarget_def setFormatTemplate_def split: if_splits sum.splits prod.splits)

lemma stopped_run:
  "run es s = Some s' \<Longrightarrow> workerThread s = W_Stopped \<Longrightarrow>
   workerThread s' = W_Stopped \<and> written s' = written s \<and> console s' = console s"
proof (induction es arbitrary: s)
  case Nil
  then show ?case by simp
next
  case (Cons e es)
  from Cons.prems(1) obtain s1 where 1: "step e s = Some s1" and 2: "run es s1 = Some s'"
    by (auto split: option.splits)
  from stopped_step [OF 1 Cons.prems(2)] Cons.IH [OF 2] show ?case by simp
qed

text \<open>
  The worker returns from the last loop with the mutex held and the queue empty: at that
  moment everything enqueued so far has been written.
\<close>

lemma drained_step:
  assumes "step e s = Some s'" and "fifo_inv s"
    and "workerThread s = W_Stopped \<longrightarrow> n \<le> length (written s)"
    and "n \<le> length (enqueued s)"
  shows "workerThread s' = W_Stopped \<longrightarrow> n \<le> length (written s')"
proof (cases "workerThread s = W_Stopped")
  case True
  with stopped_step [OF assms(1)] assms(3) show ?thesis by simp
next
  case False
  show ?thesis
  proof (cases e)
    case Worker
    show ?thesis
    proof (cases "workerThread s")
      case (W_Write msg)
      with assms(1) Worker show ?thesis by (auto simp: workerFunc_def)
    next
      case W_Final
      show ?thesis
      proof (cases "messageQueue s")
        case Nil
        with assms W_Final Worker show ?thesis
          by (auto simp: workerFunc_def fifo_inv_def pending_def)
      next
        case (Cons msg rest)
        with assms(1) W_Final Worker show ?thesis
          by (auto simp: workerFunc_def dest: writeLog_control)
      qed
    qed (use assms(1) False Worker in \<open>auto simp: workerFunc_def split: if_splits list.splits\<close>)
  qed (use assms(1) False in \<open>auto simp: log_def enqueueLog_def init_def Let_def
         setLogLevel_def setOutputTarget_def setFormatTemplate_def split: if_splits sum.splits prod.splits\<close>)
qed

lemma drained_run:
  "run es s = Some s' \<Longrightarrow> fifo_inv s \<Longrightarrow>
   workerThread s = W_Stopped \<longrightarrow> n \<le> length (written s) \<Longrightarrow>
   n \<le> length (enqueued s) \<Longrightarrow>
   workerThread s' = W_Stopped \<longrightarrow> n \<le> length (written s')"
proof (induction es arbitrary: s)
  case Nil
  then show ?case by simp
next
  case (Cons e es)
  from Cons.prems(1) obtain s1 where 1: "step e s = Some s1" and 2: "run es s1 = Some s'"
    by (auto split: option.splits)
  have "n \<le> length (enqueued s1)"
    using prefix_length_le [OF enqueued_step [OF 1]] Cons.prems(4) by simp
  with Cons.IH [OF 2 fifo_inv_step [OF 1 Cons.prems(2)]
      drained_step [OF 1 Cons.prems(2) Cons.prems(3) Cons.prems(4)]]
  show ?case .
qed

text \<open>
  The last loop of the worker, run without interruption from a state in which it holds the
  mutex, writes the whole queue and returns.
\<close>

lemma final_sweep:
  "workerThread s = W_Final \<Longrightarrow>
   \<exists>s'. run (replicate (Suc (length (messageQueue s))) Worker) s = Some s' \<and>
        workerThread s' = W_Stopped \<and> written s' = written s @ messageQueue s \<and>
        messageQueue s' = []"
proof (induction "messageQueue s" arbitrary: s)
  case Nil
  then show ?case by (simp add: workerFunc_def)
next
  case (Cons msg rest)
  from Cons.hyps(2) have mq: "messageQueue s = msg # rest" by simp
  obtain s1 where w: "writeLog msg s = Some s1" using writeLog_returns by blast
  let ?s2 = "s1\<lparr>messageQueue := tl (messageQueue s1)\<rparr>"
  from mq Cons.prems w have st: "workerFunc s = Some ?s2"
    by (simp add: workerFunc_def)
  from mq writeLog_control [OF w] Cons.prems
  have q: "rest = messageQueue ?s2" and pc: "workerThread ?s2 = W_Final"
    and wr: "written ?s2 = written s @ [msg]"
    by simp_all
  from Cons.hyps(1) [OF q pc] obtain s' where r: "run (replicate (Suc (length (messageQueue ?s2))) Worker) ?s2 = Some s'"
    and fin: "workerThread s' = W_Stopped" "written s' = written ?s2 @ messageQueue ?s2" "messageQueue s' = []"
    by blast
  from q have len: "length (messageQueue s) = Suc (length (messageQueue ?s2))" using mq by simp
  have "run (replicate (Suc (length (messageQueue s))) Worker) s = Some s'"
    unfolding len using st r by simp
  with fin wr q mq show ?case by simp
qed

text \<open>
  Every call of \<^verbatim>\<open>writeLog\<close> delivers, the trace of calls and the console only grow, and
  each entry of the trace belongs to one step of the worker in the run.
\<close>

lemma writeLog_delivers: "writeLog msg t = Some t' \<Longrightarrow> delivered msg t t'"
proof -
  assume w: "writeLog msg t = Some t'"
  obtain out where out: "formatLogMessage (formatTemplate t) msg = Some out"
    by (simp add: formatLogMessage_scan)
  show ?thesis
  proof (cases "opened (logFileStream t)")
    case None
    with w out show ?thesis
      by (auto simp: delivered_def writeLog_def Let_def is_open_def)
  next
    case (Some path)
    show ?thesis
    proof (cases "failed (logFileStream t)")
      case True
      with w out Some show ?thesis
        by (auto simp: delivered_def writeLog_def Let_def is_open_def)
    next
      case False
      with w out Some show ?thesis
        by (auto simp: delivered_def writeLog_def Let_def is_open_def ofstream_write_def
            ofstream_flush_def ofstream_endl_def file_content_def)
    qed
  qed
qed

lemma delivered_same_destinations:
  "delivered msg t u \<Longrightarrow> console u' = console u \<Longrightarrow> fs u' = fs u \<Longrightarrow> delivered msg t u'"
  by (simp add: delivered_def)

lemma written_step:
  assumes "step e t = Some t'"
  shows "written t' = written t \<or> (e = Worker \<and> (\<exists>m. written t' = written t @ [m] \<and> delivered m t t'))"
proof (cases e)
  case Worker
  show ?thesis
  proof (cases "workerThread t")
    case (W_Write msg)
    with assms Worker obtain u where w: "writeLog msg t = Some u" and t': "t' = u\<lparr>workerThread := W_Relock\<rparr>"
      by (auto simp: workerFunc_def)
    from delivered_same_destinations [OF writeLog_delivers [OF w], of t'] t'
    have "delivered msg t t'" by simp
    with writeLog_control(3) [OF w] t' Worker show ?thesis by simp
  next
    case W_Final
    show ?thesis
    proof (cases "messageQueue t")
      case Nil
      with assms Worker W_Final show ?thesis by (auto simp: workerFunc_def)
    next
      case (Cons msg rest)
      with assms Worker W_Final obtain u where w: "writeLog msg t = Some u"
        and t': "t' = u\<lparr>messageQueue := tl (messageQueue u)\<rparr>"
        by (auto simp: workerFunc_def)
      from delivered_same_destinations [OF writeLog_delivers [OF w], of t'] t'
      have "delivered msg t t'" by simp
      with writeLog_control(3) [OF w] t' Worker show ?thesis by simp
    qed
  qed (use assms Worker in \<open>auto simp: workerFunc_def split: if_splits list.splits\<close>)
qed (use assms in \<open>auto simp: log_def enqueueLog_def init_def Let_def
       setLogLevel_def setOutputTarget_def setFormatTemplate_def split: if_splits sum.splits prod.splits\<close>)

lemma written_step_prefix: "step e s = Some s' \<Longrightarrow> prefix (written s) (written s')"
  using written_step [of e s s'] by auto

lemma written_run: "run es s = Some s' \<Longrightarrow> prefix (written s) (written s')"
proof (induction es arbitrary: s)
  case Nil
  then show ?case by simp
next
  case (Cons e es)
  from Cons.prems obtain s1 where 1: "step e s = Some s1" and 2: "run es s1 = Some s'"
    by (auto split: option.splits)
  from written_step_prefix [OF 1] Cons.IH [OF 2] show ?case by (rule prefix_order.trans)
qed

lemma console_step: "step e s = Some s' \<Longrightarrow> prefix (console s) (console s')"
proof (cases e)
  case Worker
  assume "step e s = Some s'"
  with Worker show ?thesis
    by (cases "workerThread s")
       (auto simp: workerFunc_def writeLog_def Let_def split: if_splits list.splits option.splits)
qed (auto simp: log_def enqueueLog_def init_def Let_def
       setLogLevel_def setOutputTarget_def setFormatTemplate_def split: if_splits sum.splits prod.splits)

lemma console_run: "run es s = Some s' \<Longrightarrow> prefix (console s) (console s')"
proof (induction es arbitrary: s)
  case Nil
  then show ?case by simp
next
  case (Cons e es)
  from Cons.prems obtain s1 where 1: "step e s = Some s1" and 2: "run es s1 = Some s'"
    by (auto split: option.splits)
  from console_step [OF 1] Cons.IH [OF 2] show ?case by (rule prefix_order.trans)
qed

lemma run_append: "run (xs @ ys) s = Option.bind (run xs s) (run ys)"
  by (induction xs arbitrary: s) (auto split: option.splits)

lemma delivery_point:
  "run es s = Some s' \<Longrightarrow> length (written s) \<le> i \<Longrightarrow> i < length (written s') \<Longrightarrow>
   \<exists>esa esb t t'. es = esa @ Worker # esb \<and> run esa s = Some t \<and> step Worker t = Some t' \<and>
      run esb t' = Some s' \<and> written t = take i (written s') \<and> delivered (written s' ! i) t t'"
proof (induction es arbitrary: s)
  case Nil
  then show ?case by simp
next
  case (Cons e es)
  from Cons.prems(1) obtain u where 1: "step e s = Some u" and 2: "run es u = Some s'"
    by (auto split: option.splits)
  show ?case
  proof (cases "length (written u) \<le> i")
    case True
    from Cons.IH [OF 2 True Cons.prems(3)] obtain esa esb t t' where
      d: "es = esa @ Worker # esb" "run esa u = Some t" "step Worker t = Some t'"
         "run esb t' = Some s'" "written t = take i (written s')" "delivered (written s' ! i) t t'"
      by blast
    from d(1) have "e # es = (e # esa) @ Worker # esb" by simp
    moreover from 1 d(2) have "run (e # esa) s = Some t" by simp
    ultimately show ?thesis using d(3-6) by blast
  next
    case False
    with written_step [OF 1] Cons.prems(2) obtain m where
      w: "e = Worker" "written u = written s @ [m]" "delivered m s u" and len: "length (written s) = i"
      by auto
    from written_run [OF 2] w(2) obtain zs where zs: "written s' = written s @ m # zs"
      by (auto simp: prefix_def)
    with len [symmetric] have "written s' ! i = m" and "take i (written s') = written s"
      by simp_all
    with w 1 2 have "e # es = [] @ Worker # es \<and> run [] s = Some s \<and> step Worker s = Some u \<and>
      run es u = Some s' \<and> written s = take i (written s') \<and> delivered (written s' ! i) s u"
      by simp
    then show ?thesis by blast
  qed
qed

text \<open>
  Once the exit flag is set, the worker, left to run, returns from every control point: it
  leaves the wait, empties the queue in the inner loop, leaves the outer loop and sweeps the
  queue once more. A sleeping worker moves here whenever it is scheduled, as after a
  notification or a spurious wake-up; that a wake-up comes is an assumption of these lemmas,
  not a property of the code, whose destructor sets the flag and notifies without the mutex.
\<close>

lemma stop_after_step:
  assumes "workerFunc s = Some s1"
    and "\<exists>n s'. run (replicate n Worker) s1 = Some s' \<and> workerThread s' = W_Stopped"
  shows "\<exists>n s'. run (replicate n Worker) s = Some s' \<and> workerThread s' = W_Stopped"
proof -
  from assms(2) obtain n s' where "run (replicate n Worker) s1 = Some s'" "workerThread s' = W_Stopped"
    by blast
  with assms(1) have "run (replicate (Suc n) Worker) s = Some s' \<and> workerThread s' = W_Stopped"
    by simp
  then show ?thesis by blast
qed

lemma stop_from_Final:
  "workerThread s = W_Final \<Longrightarrow>
   \<exists>n s'. run (replicate n Worker) s = Some s' \<and> workerThread s' = W_Stopped"
  using final_sweep [of s] by blast

lemma stop_from_FinalLock:
  assumes "workerThread s = W_FinalLock" and "\<not> queueMutex s"
  shows "\<exists>n s'. run (replicate n Worker) s = Some s' \<and> workerThread s' = W_Stopped"
proof (rule stop_after_step)
  from assms show "workerFunc s = Some (s\<lparr>queueMutex := True, workerThread := W_Final\<rparr>)"
    by (simp add: workerFunc_def)
  show "\<exists>n s'. run (replicate n Worker) (s\<lparr>queueMutex := True, workerThread := W_Final\<rparr>) = Some s'
      \<and> workerThread s' = W_Stopped"
    by (rule stop_from_Final) simp
qed

lemma stop_from_LoopTest:
  assumes "workerThread s = W_LoopTest" and "exitFlag s" and "\<not> queueMutex s"
  shows "\<exists>n s'. run (replicate n Worker) s = Some s' \<and> workerThread s' = W_Stopped"
proof (rule stop_after_step)
  from assms show "workerFunc s = Some (s\<lparr>workerThread := W_FinalLock\<rparr>)"
    by (simp add: workerFunc_def)
  from assms show "\<exists>n s'. run (replicate n Worker) (s\<lparr>workerThread := W_FinalLock\<rparr>) = Some s'
      \<and> workerThread s' = W_Stopped"
    by (intro stop_from_FinalLock) simp_all
qed

lemma stop_from_Inner:
  "workerThread s = W_Inner \<Longrightarrow> exitFlag s \<Longrightarrow>
   \<exists>n s'. run (replicate n Worker) s = Some s' \<and> workerThread s' = W_Stopped"
proof (induction "messageQueue s" arbitrary: s)
  case Nil
  show ?case
  proof (rule stop_after_step)
    from Nil show "workerFunc s = Some (s\<lparr>queueMutex := False, workerThread := W_LoopTest\<rparr>)"
      by (simp add: workerFunc_def split: list.splits)
    from Nil show "\<exists>n s'. run (replicate n Worker) (s\<lparr>queueMutex := False, workerThread := W_LoopTest\<rparr>) = Some s'
        \<and> workerThread s' = W_Stopped"
      by (intro stop_from_LoopTest) simp_all
  qed
next
  case (Cons msg rest)
  from Cons.hyps(2) have mq: "messageQueue s = msg # rest" by simp
  let ?s1 = "s\<lparr>messageQueue := rest, queueMutex := False, workerThread := W_Write msg\<rparr>"
  obtain u where w: "writeLog msg ?s1 = Some u" using writeLog_returns by blast
  let ?s2 = "u\<lparr>workerThread := W_Relock\<rparr>"
  let ?s3 = "?s2\<lparr>queueMutex := True, workerThread := W_Inner\<rparr>"
  from mq Cons.prems have 1: "workerFunc s = Some ?s1" by (simp add: workerFunc_def)
  from w have 2: "workerFunc ?s1 = Some ?s2" by (simp add: workerFunc_def)
  from writeLog_control [OF w] have 3: "workerFunc ?s2 = Some ?s3" by (simp add: workerFunc_def)
  from writeLog_control [OF w] Cons.prems
  have "rest = messageQueue ?s3" "workerThread ?s3 = W_Inner" "exitFlag ?s3" by simp_all
  from Cons.hyps(1) [OF this]
  have "\<exists>n s'. run (replicate n Worker) ?s3 = Some s' \<and> workerThread s' = W_Stopped" .
  from stop_after_step [OF 1 stop_after_step [OF 2 stop_after_step [OF 3 this]]] show ?case .
qed

lemma stop_from_WaitCheck:
  assumes "workerThread s = W_WaitCheck" and "exitFlag s"
  shows "\<exists>n s'. run (replicate n Worker) s = Some s' \<and> workerThread s' = W_Stopped"
proof (rule stop_after_step)
  from assms show "workerFunc s = Some (s\<lparr>workerThread := W_Inner\<rparr>)"
    by (simp add: workerFunc_def)
  from assms show "\<exists>n s'. run (replicate n Worker) (s\<lparr>workerThread := W_Inner\<rparr>) = Some s'
      \<and> workerThread s' = W_Stopped"
    by (intro stop_from_Inner) simp_all
qed

lemma stop_from_any:
  assumes "exitFlag s" and "queueMutex s = holds_mutex (workerThread s)"
  shows "\<exists>n s'. run (replicate n Worker) s = Some s' \<and> workerThread s' = W_Stopped"
proof (cases "workerThread s")
  case W_LoopTest
  with assms show ?thesis by (intro stop_from_LoopTest) simp_all
next
  case W_Lock
  show ?thesis
  proof (rule stop_after_step)
    from W_Lock assms show "workerFunc s = Some (s\<lparr>queueMutex := True, workerThread := W_WaitCheck\<rparr>)"
      by (simp add: workerFunc_def)
    from assms show "\<exists>n s'. run (replicate n Worker) (s\<lparr>queueMutex := True, workerThread := W_WaitCheck\<rparr>) = Some s'
        \<and> workerThread s' = W_Stopped"
      by (intro stop_from_WaitCheck) simp_all
  qed
next
  case W_WaitCheck
  with assms show ?thesis by (intro stop_from_WaitCheck) simp_all
next
  case W_Blocked
  show ?thesis
  proof (rule stop_after_step)
    from W_Blocked assms show "workerFunc s = Some (s\<lparr>queueMutex := True, workerThread := W_WaitCheck\<rparr>)"
      by (simp add: workerFunc_def)
    from assms show "\<exists>n s'. run (replicate n Worker) (s\<lparr>queueMutex := True, workerThread := W_WaitCheck\<rparr>) = Some s'
        \<and> workerThread s' = W_Stopped"
      by (intro stop_from_WaitCheck) simp_all
  qed
next
  case W_Inner
  with assms show ?thesis by (intro stop_from_Inner) simp_all
next
  case (W_Write msg)
  obtain u where w: "writeLog msg s = Some u" using writeLog_returns by blast
  let ?s2 = "u\<lparr>workerThread := W_Relock\<rparr>"
  let ?s3 = "?s2\<lparr>queueMutex := True, workerThread := W_Inner\<rparr>"
  from W_Write w have 2: "workerFunc s = Some ?s2" by (simp add: workerFunc_def)
  from writeLog_control [OF w] W_Write assms have 3: "workerFunc ?s2 = Some ?s3"
    by (simp add: workerFunc_def)
  from writeLog_control [OF w] assms
  have "\<exists>n s'. run (replicate n Worker) ?s3 = Some s' \<and> workerThread s' = W_Stopped"
    by (intro stop_from_Inner) simp_all
  from stop_after_step [OF 2 stop_after_step [OF 3 this]] show ?thesis .
next
  case W_Relock
  show ?thesis
  proof (rule stop_after_step)
    from W_Relock assms show "workerFunc s = Some (s\<lparr>queueMutex := True, workerThread := W_Inner\<rparr>)"
      by (simp add: workerFunc_def)
    from assms show "\<exists>n s'. run (replicate n Worker) (s\<lparr>queueMutex := True, workerThread := W_Inner\<rparr>) = Some s'
        \<and> workerThread s' = W_Stopped"
      by (intro stop_from_Inner) simp_all
  qed
next
  case W_FinalLock
  with assms show ?thesis by (intro stop_from_FinalLock) simp_all
next
  case W_Final
  then show ?thesis by (rule stop_from_Final)
next
  case W_Stopped
  then have "run (replicate 0 Worker) s = Some s \<and> workerThread s = W_Stopped" by simp
  then show ?thesis by blast
qed

lemma mutex_inv_step:
  assumes "step e s = Some s'" and "queueMutex s = holds_mutex (workerThread s)"
  shows "queueMutex s' = holds_mutex (workerThread s')"
proof (cases e)
  case Worker
  show ?thesis
  proof (cases "workerThread s")
    case (W_Write msg)
    with assms Worker show ?thesis by (auto simp: workerFunc_def dest: writeLog_control)
  next
    case W_Final
    with assms Worker show ?thesis
      by (auto simp: workerFunc_def split: list.splits dest: writeLog_control)
  qed (use assms Worker in \<open>auto simp: workerFunc_def split: if_splits list.splits\<close>)
qed (use assms in \<open>auto simp: log_def enqueueLog_def init_def Let_def
       setLogLevel_def setOutputTarget_def setFormatTemplate_def split: if_splits sum.splits prod.splits\<close>)

lemma mutex_inv_run:
  "run es s = Some s' \<Longrightarrow> queueMutex s = holds_mutex (workerThread s) \<Longrightarrow>
   queueMutex s' = holds_mutex (workerThread s')"
proof (induction es arbitrary: s)
  case Nil
  then show ?case by simp
next
  case (Cons e es)
  from Cons.prems(1) obtain s1 where 1: "step e s = Some s1" and 2: "run es s1 = Some s'"
    by (auto split: option.splits)
  from Cons.IH [OF 2 mutex_inv_step [OF 1 Cons.prems(2)]] show ?case .
qed

lemma worker_can_stop:
  assumes "run es (Logger_ctor now fsys) = Some s"
  shows "\<exists>n s'. run (DtorSignal # replicate n Worker) s = Some s' \<and> workerThread s' = W_Stopped"
proof -
  have "queueMutex s = holds_mutex (workerThread s)"
    using mutex_inv_run [OF assms] by (simp add: Logger_ctor_def)
  then have "\<exists>n s'. run (replicate n Worker) (s\<lparr>exitFlag := True\<rparr>) = Some s' \<and> workerThread s' = W_Stopped"
    by (intro stop_from_any) simp_all
  then show ?thesis by simp
qed

lemmas logger_eval =
  Logger_ctor_def closed_stream_def log_def enqueueLog_def workerFunc_def writeLog_def Let_def
  formatLogMessage_scan to_string_def dec_digits.simps digit_char_def is_open_def
  init_def setLogLevel_def setOutputTarget_def setFormatTemplate_def
  ofstream_open_def ofstream_write_def ofstream_flush_def ofstream_endl_def ofstream_close_def
  tellp_def file_content_def bom_def

text \<open>
  C1, as amended. Take any run of the program up to a state \<open>s1\<close> in which the destructor
  has not yet set the exit flag, and any continuation to a state \<open>s2\<close> in which the worker
  has returned. Then every message enqueued up to \<open>s1\<close> has been passed to \<^verbatim>\<open>writeLog\<close>
  by \<open>s2\<close>, in the order of enqueueing, each in a step of the worker of its own, and that
  step has delivered it to the destinations usable at that moment: to the console where the
  Console bit is set (and the line is still on the console in \<open>s2\<close>), to the file where the
  File bit is set, a file is open and the stream is not in a failed state. Whatever happens
  after \<open>s2\<close> calls \<^verbatim>\<open>writeLog\<close> no more and sends nothing to the console.
\<close>

theorem logger_drain_on_shutdown:
  assumes "run es1 (Logger_ctor now fsys) = Some s1" and "\<not> exitFlag s1"
    and "run es2 s1 = Some s2" and "workerThread s2 = W_Stopped"
    and "run es3 s2 = Some s3"
  shows "prefix (enqueued s1) (written s2)
    \<and> (\<forall>i < length (enqueued s1). \<exists>esa esb t t'.
          es1 @ es2 = esa @ Worker # esb \<and> run esa (Logger_ctor now fsys) = Some t \<and>
          step Worker t = Some t' \<and> run esb t' = Some s2 \<and>
          written t = take i (enqueued s1) \<and> delivered (enqueued s1 ! i) t t' \<and>
          prefix (console t') (console s2))
    \<and> written s3 = written s2 \<and> console s3 = console s2"
proof -
  have f1: "fifo_inv s1" using fifo_inv_run [OF assms(1) fifo_inv_ctor] .
  have f2: "fifo_inv s2" using fifo_inv_run [OF assms(3) f1] .
  have "workerThread s1 \<noteq> W_Stopped" using running_ctor [OF assms(1) assms(2)] .
  with drained_run [OF assms(3) f1, of "length (enqueued s1)"] assms(4)
  have len: "length (enqueued s1) \<le> length (written s2)" by simp
  have "prefix (written s2) (enqueued s2)" using f2 by (simp add: fifo_inv_def)
  with enqueued_run [OF assms(3)] len have pre: "prefix (enqueued s1) (written s2)"
    using prefix_length_prefix by blast
  have whole: "run (es1 @ es2) (Logger_ctor now fsys) = Some s2"
    using assms(1,3) by (simp add: run_append)
  have each: "\<exists>esa esb t t'.
          es1 @ es2 = esa @ Worker # esb \<and> run esa (Logger_ctor now fsys) = Some t \<and>
          step Worker t = Some t' \<and> run esb t' = Some s2 \<and>
          written t = take i (enqueued s1) \<and> delivered (enqueued s1 ! i) t t' \<and>
          prefix (console t') (console s2)" if i: "i < length (enqueued s1)" for i
  proof -
    from pre obtain zs where zs: "written s2 = enqueued s1 @ zs" by (auto simp: prefix_def)
    with i have nth: "written s2 ! i = enqueued s1 ! i" and tk: "take i (written s2) = take i (enqueued s1)"
      by (simp_all add: nth_append)
    from i len have "i < length (written s2)" by simp
    from delivery_point [OF whole _ this] obtain esa esb t t' where
      d: "es1 @ es2 = esa @ Worker # esb" "run esa (Logger_ctor now fsys) = Some t"
         "step Worker t = Some t'" "run esb t' = Some s2"
         "written t = take i (written s2)" "delivered (written s2 ! i) t t'"
      by (auto simp: Logger_ctor_def)
    from console_run [OF d(4)] d nth tk show ?thesis by metis
  qed
  from pre each stopped_run [OF assms(5) assms(4)] show ?thesis by simp
qed

theorem logger_drain_on_shutdown_witness:
  "\<exists>s1 s2 s3.
     run [SetOutputTarget Both, Init TRACE ''a.log'' True False,
          Log INFO ''one'' ''a.cpp'' 1 ''t1'', Log ERROR ''two'' ''a.cpp'' 2 ''t2'']
       (Logger_ctor ''start'' \<lparr>files = Map.empty, can_open = (\<lambda>p. True), append_tells_end = False,
           create_directories_throws = (\<lambda>p. False)\<rparr>) = Some s1
     \<and> \<not> exitFlag s1
     \<and> run [DtorSignal, Worker, Worker, Worker, Worker, Worker] s1 = Some s2
     \<and> workerThread s2 = W_Stopped
     \<and> run [Log INFO ''late'' ''a.cpp'' 3 ''t3'', DtorClose] s2 = Some s3
     \<and> prefix (enqueued s1) (written s2)
     \<and> console s2 = [ConsoleOutput ''t1 | INFO | a.cpp:1 -> one'',
                      FileWriteNotice ''a.log'', FileBytesNotice 26,
                      ConsoleOutput ''t2 | ERROR | a.cpp:2 -> two'',
                      FileWriteNotice ''a.log'', FileBytesNotice 27]
     \<and> file_content (fs s2) ''a.log'' =
           bom @ ''t1 | INFO | a.cpp:1 -> one'' @ [CHR 0x0A] @ ''t2 | ERROR | a.cpp:2 -> two'' @ [CHR 0x0A]
     \<and> written s3 = written s2 \<and> console s3 = console s2"
proof -
  obtain s1 where 1: "run [SetOutputTarget Both, Init TRACE ''a.log'' True False,
          Log INFO ''one'' ''a.cpp'' 1 ''t1'', Log ERROR ''two'' ''a.cpp'' 2 ''t2'']
       (Logger_ctor ''start'' \<lparr>files = Map.empty, can_open = (\<lambda>p. True), append_tells_end = False,
           create_directories_throws = (\<lambda>p. False)\<rparr>) = Some s1"
    by (simp add: logger_eval)
  from 1 have 2: "\<not> exitFlag s1" by (auto simp: logger_eval)
  obtain s2 where 3: "run [DtorSignal, Worker, Worker, Worker, Worker, Worker] s1 = Some s2"
    using 1 by (auto simp: logger_eval)
  from 1 3 have 4: "workerThread s2 = W_Stopped" by (auto simp: logger_eval)
  from 1 3 have c: "console s2 = [ConsoleOutput ''t1 | INFO | a.cpp:1 -> one'',
                      FileWriteNotice ''a.log'', FileBytesNotice 26,
                      ConsoleOutput ''t2 | ERROR | a.cpp:2 -> two'',
                      FileWriteNotice ''a.log'', FileBytesNotice 27]"
    by (auto simp: logger_eval)
  from 1 3 have f: "file_content (fs s2) ''a.log'' =
           bom @ ''t1 | INFO | a.cpp:1 -> one'' @ [CHR 0x0A] @ ''t2 | ERROR | a.cpp:2 -> two'' @ [CHR 0x0A]"
    by (auto simp: logger_eval)
  obtain s3 where 5: "run [Log INFO ''late'' ''a.cpp'' 3 ''t3'', DtorClose] s2 = Some s3"
    using 1 3 by (auto simp: logger_eval)
  from logger_drain_on_shutdown [OF 1 2 3 4 5]
  have "prefix (enqueued s1) (written s2) \<and> written s3 = written s2 \<and> console s3 = console s2"
    by blast
  with 1 2 3 4 5 c f show ?thesis by blast
qed

text \<open>
  C1 as stated fails where no destination is usable: with the File target and no file opened,
  the message enqueued before the exit flag is drained, the worker returns, and the message
  has reached neither a file nor the console, which holds only the notice that the file is
  not open.
\<close>

theorem logger_drained_to_no_destination:
  "map_option (\<lambda>s. (workerThread s, enqueued s, written s, console s, fs s))
     (run [SetOutputTarget File, Log INFO ''one'' ''a.cpp'' 1 ''t1'',
           DtorSignal, Worker, Worker, Worker, Worker]
        (Logger_ctor ''start'' \<lparr>files = Map.empty, can_open = (\<lambda>p. True), append_tells_end = False,
           create_directories_throws = (\<lambda>p. False)\<rparr>))
   = Some (W_Stopped,
           [\<lparr>level = INFO, message = ''one'', file = ''a.cpp'', line = 1, timestamp = ''t1''\<rparr>],
           [\<lparr>level = INFO, message = ''one'', file = ''a.cpp'', line = 1, timestamp = ''t1''\<rparr>],
           [FileNotOpenNotice],
           \<lparr>files = Map.empty, can_open = (\<lambda>p. True), append_tells_end = False,
           create_directories_throws = (\<lambda>p. False)\<rparr>)"
  by (simp add: logger_eval)

text \<open>
  C2. In every state the program can reach, the messages handed to \<^verbatim>\<open>writeLog\<close> so far,
  followed by the message the worker holds and the messages still in the queue, are the
  messages enqueued so far, in the order of enqueueing: none is reordered, none is written
  twice, none is skipped.
\<close>

theorem logger_fifo_order:
  "run es (Logger_ctor now fsys) = Some s \<Longrightarrow> enqueued s = written s @ pending s"
  using fifo_inv_run [OF _ fifo_inv_ctor] by (simp add: fifo_inv_def)

theorem logger_fifo_order_witness:
  "\<exists>s. run [Log INFO ''one'' ''a.cpp'' 1 ''t1'', Log ERROR ''two'' ''a.cpp'' 2 ''t2'',
            Worker, Worker, Worker, Worker, Worker]
       (Logger_ctor ''start'' \<lparr>files = Map.empty, can_open = (\<lambda>p. True), append_tells_end = False,
           create_directories_throws = (\<lambda>p. False)\<rparr>) = Some s
     \<and> written s = [\<lparr>level = INFO, message = ''one'', file = ''a.cpp'', line = 1, timestamp = ''t1''\<rparr>]
     \<and> enqueued s = written s @ pending s"
proof -
  obtain s where 1: "run [Log INFO ''one'' ''a.cpp'' 1 ''t1'', Log ERROR ''two'' ''a.cpp'' 2 ''t2'',
            Worker, Worker, Worker, Worker, Worker]
       (Logger_ctor ''start'' \<lparr>files = Map.empty, can_open = (\<lambda>p. True), append_tells_end = False,
           create_directories_throws = (\<lambda>p. False)\<rparr>) = Some s"
    by (simp add: logger_eval)
  from 1 have "written s = [\<lparr>level = INFO, message = ''one'', file = ''a.cpp'', line = 1, timestamp = ''t1''\<rparr>]"
    by (auto simp: logger_eval)
  with logger_fifo_order [OF 1] 1 show ?thesis by blast
qed

text \<open>
  C3. A call of \<^verbatim>\<open>log\<close> with a level below the current minimum leaves the logger as it is
  (nothing is built, nothing is queued, and the call does not wait for the mutex); a call
  with a level at or above the minimum appends its message to the queue.
\<close>

theorem log_level_filter:
  "(level_value lvl < level_value (currentLevel s) \<longrightarrow>
      log lvl text fname ln now s = s \<and> step (Log lvl text fname ln now) s = Some s)
   \<and> (\<not> level_value lvl < level_value (currentLevel s) \<longrightarrow>
      messageQueue (log lvl text fname ln now s) =
        messageQueue s @ [\<lparr>level = lvl, message = text, file = fname, line = ln, timestamp = now\<rparr>])"
  by (simp add: log_def enqueueLog_def)

theorem log_level_filter_witness:
  "log INFO ''quiet'' ''a.cpp'' 7 ''t''
     (setLogLevel WARNING (Logger_ctor ''start'' \<lparr>files = Map.empty, can_open = (\<lambda>p. True), append_tells_end = False,
           create_directories_throws = (\<lambda>p. False)\<rparr>))
   = setLogLevel WARNING (Logger_ctor ''start'' \<lparr>files = Map.empty, can_open = (\<lambda>p. True), append_tells_end = False,
           create_directories_throws = (\<lambda>p. False)\<rparr>)
   \<and> messageQueue (log ERROR ''loud'' ''a.cpp'' 8 ''t''
     (setLogLevel WARNING (Logger_ctor ''start'' \<lparr>files = Map.empty, can_open = (\<lambda>p. True), append_tells_end = False,
           create_directories_throws = (\<lambda>p. False)\<rparr>)))
   = [\<lparr>level = ERROR, message = ''loud'', file = ''a.cpp'', line = 8, timestamp = ''t''\<rparr>]"
proof -
  let ?s = "setLogLevel WARNING (Logger_ctor ''start'' \<lparr>files = Map.empty, can_open = (\<lambda>p. True), append_tells_end = False,
           create_directories_throws = (\<lambda>p. False)\<rparr>)"
  have lo: "level_value INFO < level_value (currentLevel ?s)" by (simp add: setLogLevel_def)
  have hi: "\<not> level_value ERROR < level_value (currentLevel ?s)" by (simp add: setLogLevel_def)
  have q: "messageQueue ?s = []" by (simp add: setLogLevel_def Logger_ctor_def)
  from log_level_filter [of INFO ?s "''quiet''" "''a.cpp''" 7 "''t''"] lo
  have "log INFO ''quiet'' ''a.cpp'' 7 ''t'' ?s = ?s" by blast
  moreover from log_level_filter [of ERROR ?s "''loud''" "''a.cpp''" 8 "''t''"] hi q
  have "messageQueue (log ERROR ''loud'' ''a.cpp'' 8 ''t'' ?s)
      = [\<lparr>level = ERROR, message = ''loud'', file = ''a.cpp'', line = 8, timestamp = ''t''\<rparr>]"
    by simp
  ultimately show ?thesis by blast
qed

section \<open>Opening the file\<close>

text \<open>\<^verbatim>\<open>init\<close> throws exactly when the directory block does; then only the level is set.\<close>

lemma init_throws:
  "create_directories_throws (fs s) filePath \<Longrightarrow>
   init lvl filePath app addTimestampSuffix s = Inl (FilesystemError, s\<lparr>currentLevel := lvl\<rparr>)"
  by (simp add: init_def Let_def)

lemma init_returns:
  "\<not> create_directories_throws (fs s) filePath \<Longrightarrow>
   \<exists>s'. init lvl filePath app addTimestampSuffix s = Inr s'"
  by (simp add: init_def Let_def)

text \<open>The path that \<^verbatim>\<open>init\<close> opens.\<close>

lemma init_logFilePath:
  "init lvl filePath app addTimestampSuffix s = Inr s' \<Longrightarrow>
   logFilePath s' =
     (if addTimestampSuffix
      then (case rfind filePath CHR ''.'' of
              Some dot \<Rightarrow> take dot filePath @ ''_'' @ startupTime s @ drop dot filePath
            | None \<Rightarrow> filePath @ ''_'' @ startupTime s)
      else filePath)"
  by (auto simp: init_def Let_def split: option.splits if_splits)

lemma init_stream:
  "init lvl filePath app addTimestampSuffix s = Inr s' \<Longrightarrow>
   (logFileStream s', fs s') =
     (let sf = ofstream_open (logFilePath s') app (logFileStream s, fs s)
      in if is_open (fst sf) \<and> tellp (fst sf) = 0 then ofstream_write bom sf else sf)"
  by (auto simp: init_def Let_def split: if_splits)

text \<open>
  On a closed stream, a file that is empty once it is open (new, truncated, or empty before)
  gets the byte-order mark, which waits in the buffer for the first flush.
\<close>

lemma init_bom_on_empty_file:
  assumes "init lvl filePath app addTimestampSuffix s = Inr s'"
    and "\<not> is_open (logFileStream s)"
    and "logFilePath s' = p"
    and "can_open (fs s) p"
    and "\<not> app \<or> file_content (fs s) p = []"
  shows "opened (logFileStream s') = Some p \<and> \<not> failed (logFileStream s')
    \<and> buffer (logFileStream s') = bom \<and> file_content (fs s') p = []"
proof -
  from assms(2,4,5) have op: "ofstream_open p app (logFileStream s, fs s) =
      (\<lparr>opened = Some p, failed = False, app_mode = app, buffer = [], put_pos = 0\<rparr>,
       (fs s)\<lparr>files := (files (fs s))(p := Some [])\<rparr>)"
    by (auto simp: ofstream_open_def Let_def)
  have "(logFileStream s', fs s') =
      (\<lparr>opened = Some p, failed = False, app_mode = app, buffer = bom,
         put_pos = length bom\<rparr>,
       (fs s)\<lparr>files := (files (fs s))(p := Some [])\<rparr>)"
    unfolding init_stream [OF assms(1)] assms(3) op
    by (simp add: Let_def is_open_def tellp_def ofstream_write_def file_content_def)
  then have "logFileStream s' = \<lparr>opened = Some p, failed = False, app_mode = app, buffer = bom,
         put_pos = length bom\<rparr>"
    and "fs s' = (fs s)\<lparr>files := (files (fs s))(p := Some [])\<rparr>"
    by simp_all
  then show ?thesis by (simp add: file_content_def)
qed

text \<open>
  A file with content, opened for appending, gets no mark where the stream reports the end
  of the file as its position.
\<close>

lemma init_no_bom_at_end_position:
  assumes "init lvl filePath True addTimestampSuffix s = Inr s'"
    and "\<not> is_open (logFileStream s)"
    and "logFilePath s' = p"
    and "can_open (fs s) p"
    and "file_content (fs s) p \<noteq> []"
    and "append_tells_end (fs s)"
  shows "buffer (logFileStream s') = [] \<and> file_content (fs s') p = file_content (fs s) p"
proof -
  from assms(2,4,6) have op: "ofstream_open p True (logFileStream s, fs s) =
      (\<lparr>opened = Some p, failed = False, app_mode = True, buffer = [],
         put_pos = length (file_content (fs s) p)\<rparr>,
       (fs s)\<lparr>files := (files (fs s))(p := Some (file_content (fs s) p))\<rparr>)"
    by (simp add: ofstream_open_def Let_def)
  have "(logFileStream s', fs s') =
      (\<lparr>opened = Some p, failed = False, app_mode = True, buffer = [],
         put_pos = length (file_content (fs s) p)\<rparr>,
       (fs s)\<lparr>files := (files (fs s))(p := Some (file_content (fs s) p))\<rparr>)"
    unfolding init_stream [OF assms(1)] assms(3) op using assms(5)
    by (simp add: Let_def is_open_def tellp_def)
  then have "logFileStream s' = \<lparr>opened = Some p, failed = False, app_mode = True, buffer = [],
         put_pos = length (file_content (fs s) p)\<rparr>"
    and "fs s' = (fs s)\<lparr>files := (files (fs s))(p := Some (file_content (fs s) p))\<rparr>"
    by simp_all
  then show ?thesis by (simp add: file_content_def)
qed

section \<open>Files\<close>

text \<open>
  C9, as amended. With the File bit set, \<^verbatim>\<open>writeLog\<close> returns for every message. When no
  file is open it leaves the stream and the files alone and sends the notice that the file
  is not open to the console (after the console line, if the Console bit is set too). When a
  file is open and the stream is not in a failed state, the file then holds what it held,
  what was waiting in the buffer, the rendered line and a newline, and the buffer is empty:
  the line has been flushed.
\<close>

theorem writeLog_file_target:
  assumes "and (target_value (outputTarget s)) (target_value File) \<noteq> 0"
  shows "\<exists>out s'. formatLogMessage (formatTemplate s) msg = Some out \<and> writeLog msg s = Some s' \<and>
     (\<not> is_open (logFileStream s) \<longrightarrow>
        fs s' = fs s \<and> logFileStream s' = logFileStream s \<and>
        console s' = console s @
          (if and (target_value (outputTarget s)) (target_value Console) \<noteq> 0
           then [ConsoleOutput out] else []) @ [FileNotOpenNotice]) \<and>
     (\<forall>path. opened (logFileStream s) = Some path \<and> \<not> failed (logFileStream s) \<longrightarrow>
        file_content (fs s') path = file_content (fs s) path @ buffer (logFileStream s) @ out @ [CHR 0x0A] \<and>
        buffer (logFileStream s') = [] \<and>
        opened (logFileStream s') = Some path \<and> \<not> failed (logFileStream s'))"
proof -
  obtain out where out: "formatLogMessage (formatTemplate s) msg = Some out"
    by (simp add: formatLogMessage_scan)
  show ?thesis
  proof (cases "opened (logFileStream s)")
    case None
    with assms out show ?thesis
      by (simp add: writeLog_def Let_def is_open_def)
  next
    case (Some path)
    show ?thesis
    proof (cases "failed (logFileStream s)")
      case True
      with assms out Some show ?thesis
        by (simp add: writeLog_def Let_def is_open_def)
    next
      case False
      with assms out Some show ?thesis
        by (simp add: writeLog_def Let_def is_open_def ofstream_write_def ofstream_flush_def
            ofstream_endl_def file_content_def)
    qed
  qed
qed

theorem writeLog_file_target_witness:
  "map_option console
     (writeLog \<lparr>level = INFO, message = ''hello'', file = ''a.cpp'', line = 10, timestamp = ''T''\<rparr>
        (setOutputTarget Both (Logger_ctor ''start''
           \<lparr>files = Map.empty, can_open = (\<lambda>p. True), append_tells_end = False,
           create_directories_throws = (\<lambda>p. False)\<rparr>)))
     = Some [ConsoleOutput ''T | INFO | a.cpp:10 -> hello'', FileNotOpenNotice]
   \<and> map_option (\<lambda>s'. (file_content (fs s') ''a.log'', buffer (logFileStream s')))
     (Option.bind
        (run [SetOutputTarget File, Init TRACE ''a.log'' True False] (Logger_ctor ''start''
           \<lparr>files = Map.empty, can_open = (\<lambda>p. True), append_tells_end = False,
           create_directories_throws = (\<lambda>p. False)\<rparr>))
        (writeLog \<lparr>level = INFO, message = ''hello'', file = ''a.cpp'', line = 10, timestamp = ''T''\<rparr>))
     = Some (bom @ ''T | INFO | a.cpp:10 -> hello'' @ [CHR 0x0A], [])"
proof -
  let ?m = "\<lparr>level = INFO, message = ''hello'', file = ''a.cpp'', line = 10, timestamp = ''T''\<rparr>"
  let ?c = "Logger_ctor ''start'' \<lparr>files = Map.empty, can_open = (\<lambda>p. True), append_tells_end = False,
           create_directories_throws = (\<lambda>p. False)\<rparr>"
  let ?A = "setOutputTarget Both ?c"
  obtain B where rB: "run [SetOutputTarget File, Init TRACE ''a.log'' True False] ?c = Some B"
    by (simp add: logger_eval)
  have bitA: "and (target_value (outputTarget ?A)) (target_value File) \<noteq> 0"
    by (simp add: setOutputTarget_def)
  have closedA: "\<not> is_open (logFileStream ?A)" by (simp add: logger_eval)
  have conA: "and (target_value (outputTarget ?A)) (target_value Console) \<noteq> 0"
    by (simp add: setOutputTarget_def)
  have consA: "console ?A = []" by (simp add: logger_eval)
  from writeLog_file_target [OF bitA, of ?m] closedA conA consA
  obtain outA sA where a: "formatLogMessage (formatTemplate ?A) ?m = Some outA"
    "writeLog ?m ?A = Some sA" "console sA = [ConsoleOutput outA, FileNotOpenNotice]"
    by auto
  from a(1) have "outA = ''T | INFO | a.cpp:10 -> hello''" by (simp add: logger_eval)
  with a have A: "map_option console (writeLog ?m ?A)
      = Some [ConsoleOutput ''T | INFO | a.cpp:10 -> hello'', FileNotOpenNotice]" by simp
  from rB have bitB: "and (target_value (outputTarget B)) (target_value File) \<noteq> 0"
    by (auto simp: logger_eval)
  from rB have openB: "opened (logFileStream B) = Some ''a.log'' \<and> \<not> failed (logFileStream B)"
    by (auto simp: logger_eval)
  from rB have stB: "file_content (fs B) ''a.log'' = [] \<and> buffer (logFileStream B) = bom"
    by (auto simp: logger_eval)
  from rB have tB: "formatTemplate B = ''{t} | {L} | {f}:{l} -> {m}''"
    by (auto simp: logger_eval)
  from writeLog_file_target [OF bitB, of ?m] openB
  obtain outB sB where b: "formatLogMessage (formatTemplate B) ?m = Some outB"
    "writeLog ?m B = Some sB"
    "file_content (fs sB) ''a.log'' = file_content (fs B) ''a.log'' @ buffer (logFileStream B) @ outB @ [CHR 0x0A]"
    "buffer (logFileStream sB) = []"
    by blast
  from b(1) tB have "outB = ''T | INFO | a.cpp:10 -> hello''" by (simp add: logger_eval)
  with b stB rB have B: "map_option (\<lambda>s'. (file_content (fs s') ''a.log'', buffer (logFileStream s')))
      (Option.bind (run [SetOutputTarget File, Init TRACE ''a.log'' True False] ?c) (writeLog ?m))
      = Some (bom @ ''T | INFO | a.cpp:10 -> hello'' @ [CHR 0x0A], [])" by simp
  from A B show ?thesis by blast
qed

text \<open>
  C9 as stated fails on a stream that has a file and is in a failed state, which is where
  a second \<^verbatim>\<open>init\<close> leaves it: \<^verbatim>\<open>is_open()\<close> holds, and the rendered line reaches
  neither file; the byte-order mark of the first \<^verbatim>\<open>init\<close> is still in the buffer.
\<close>

theorem writeLog_failed_stream:
  "map_option (\<lambda>s. is_open (logFileStream s))
     (run [SetOutputTarget File, Init TRACE ''a.log'' True False, Init DEBUG ''b.log'' True False]
        (Logger_ctor ''start''
         \<lparr>files = Map.empty, can_open = (\<lambda>p. True), append_tells_end = False,
           create_directories_throws = (\<lambda>p. False)\<rparr>))
     = Some True
   \<and> map_option (\<lambda>s'. (file_content (fs s') ''a.log'', file_content (fs s') ''b.log'', buffer (logFileStream s')))
     (Option.bind
        (run [SetOutputTarget File, Init TRACE ''a.log'' True False, Init DEBUG ''b.log'' True False]
          (Logger_ctor ''start''
             \<lparr>files = Map.empty, can_open = (\<lambda>p. True), append_tells_end = False,
           create_directories_throws = (\<lambda>p. False)\<rparr>))
        (writeLog \<lparr>level = INFO, message = ''hello'', file = ''a.cpp'', line = 10, timestamp = ''T''\<rparr>))
     = Some ([], [], bom)"
  by (simp add: logger_eval)

text \<open>
  C4 at the calls of main.cpp (an \<^verbatim>\<open>init\<close>, messages, a second \<^verbatim>\<open>init\<close> with another
  path, more messages), here with the File target. \<^verbatim>\<open>init\<close> does not close the stream,
  so the second \<^verbatim>\<open>open\<close> fails: the stream keeps the first file and is in a failed
  state, the second file is never created, and the message processed after the second
  \<^verbatim>\<open>init\<close> is handed to \<^verbatim>\<open>writeLog\<close> and reaches no file.
\<close>

theorem init_reopen_fails:
  "\<exists>s. run [SetOutputTarget File, Init TRACE ''a.log'' True False,
          Log INFO ''one'' ''a.cpp'' 1 ''T1'', Worker, Worker, Worker, Worker, Worker,
          Init DEBUG ''b.log'' True False,
          Log INFO ''two'' ''a.cpp'' 2 ''T2'', Worker, Worker, Worker, Worker, Worker, Worker, Worker]
      (Logger_ctor ''start'' \<lparr>files = Map.empty, can_open = (\<lambda>p. True), append_tells_end = False,
           create_directories_throws = (\<lambda>p. False)\<rparr>) = Some s
   \<and> written s = [\<lparr>level = INFO, message = ''one'', file = ''a.cpp'', line = 1, timestamp = ''T1''\<rparr>,
                   \<lparr>level = INFO, message = ''two'', file = ''a.cpp'', line = 2, timestamp = ''T2''\<rparr>]
   \<and> logFilePath s = ''b.log''
   \<and> opened (logFileStream s) = Some ''a.log'' \<and> failed (logFileStream s)
   \<and> files (fs s) ''b.log'' = None
   \<and> files (fs s) ''a.log'' = Some (bom @ ''T1 | INFO | a.cpp:1 -> one'' @ [CHR 0x0A])"
  by (simp add: logger_eval)

text \<open>
  C7 at the path \<^verbatim>\<open>logs.v1/app\<close>, whose file name has no extension: \<^verbatim>\<open>rfind('.')\<close>
  searches the whole path and finds the dot of the directory, so the suffix goes into the
  directory name and not to the end of the file name.
\<close>

theorem init_suffix_in_directory:
  "map_sum fst logFilePath (init TRACE ''logs.v1/app'' True True
      (Logger_ctor ''2024-01-01_12-00-00''
         \<lparr>files = Map.empty, can_open = (\<lambda>p. True), append_tells_end = False,
           create_directories_throws = (\<lambda>p. False)\<rparr>))
   = Inr ''logs_2024-01-01_12-00-00.v1/app''"
  by (simp add: init_def Let_def Logger_ctor_def)

text \<open>
  C8 at a file that already starts with a byte-order mark and has content, opened for
  appending where the stream reports position 0 before its first write: \<^verbatim>\<open>tellp() == 0\<close>
  holds, and the file gets a second mark behind its old content, before the first line.
\<close>

theorem init_second_bom:
  "\<exists>s. run [SetOutputTarget File, Init TRACE ''fixed.log'' True False,
          Log INFO ''hello'' ''a.cpp'' 10 ''T'', Worker, Worker, Worker, Worker, Worker]
      (Logger_ctor ''start''
         \<lparr>files = [''fixed.log'' \<mapsto> bom @ ''old''], can_open = (\<lambda>p. True), append_tells_end = False,
           create_directories_throws = (\<lambda>p. False)\<rparr>) = Some s
   \<and> files (fs s) ''fixed.log'' = Some (bom @ ''old'' @ bom @ ''T | INFO | a.cpp:10 -> hello'' @ [CHR 0x0A])"
  by (simp add: logger_eval)

end
